theory Spec2Isabelle
  imports Main
begin

section \<open>The board of simple\_board.py\<close>

text \<open>
  \<^verbatim>\<open>SimpleGoBoard\<close> keeps a square board in a one-dimensional numpy array with
  padding. The methods are embedded as functions that take the board value and return
  the updated one; a Python exception is the \<open>Inl\<close> branch of the result.
\<close>

subsection \<open>Constants of board\_util\<close>

text \<open>
  Modelled from the spec: the module \<^verbatim>\<open>board_util\<close> (the markers \<^verbatim>\<open>EMPTY\<close>,
  \<^verbatim>\<open>BLACK\<close>, \<^verbatim>\<open>WHITE\<close>, \<^verbatim>\<open>BORDER\<close>, the reserved move \<^verbatim>\<open>PASS\<close>,
  \<^verbatim>\<open>is_black_white\<close>, \<^verbatim>\<open>GoBoardUtil.opponent\<close> and the bound \<^verbatim>\<open>MAXSIZE\<close>) is
  imported by the source and is not part of it. The spec names four distinct markers, of
  which a playable cell holds exactly one of the first three, and a reserved value
  \<^verbatim>\<open>PASS\<close> that is no address. \<^verbatim>\<open>MAXSIZE\<close> has no value in the spec: every
  function that reads it takes it as its first argument.
\<close>

datatype marker = EMPTY | BLACK | WHITE | BORDER

datatype move = PASS | Point int

definition is_black_white :: "marker \<Rightarrow> bool" where
  "is_black_white color = (color = BLACK \<or> color = WHITE)"

text \<open>
  Modelled from the spec: the opponent of a colour. The spec speaks of the opponent of
  \<^verbatim>\<open>BLACK\<close> and of \<^verbatim>\<open>WHITE\<close> only, so the function is left unspecified on the two
  other markers.
\<close>

fun opponent :: "marker \<Rightarrow> marker" where
  "opponent BLACK = WHITE"
| "opponent WHITE = BLACK"

subsection \<open>The object and numpy indexing\<close>

datatype py_error = AssertionError | IndexError

text \<open>
  The fields of a \<^verbatim>\<open>SimpleGoBoard\<close>. The field \<open>board\<close> is the numpy array: in a
  board value it is the array's contents, in an object of the store below it is the
  array's address.
\<close>

record 'a board_fields =
  size_b :: int
  NS :: int
  WE :: int
  ko_recapture :: "int option"
  current_player :: marker
  maxpoint :: int
  board :: 'a
  winner :: "marker option"

type_synonym SimpleGoBoard = "marker list board_fields"

text \<open>
  \<^verbatim>\<open>a[i]\<close> on a numpy array of length \<open>n\<close>: an index in \<open>[0, n)\<close> is taken as it
  is, an index in \<open>[-n, 0)\<close> counts from the end, any other raises IndexError.
\<close>

definition np_index :: "'a list \<Rightarrow> int \<Rightarrow> nat option" where
  "np_index xs i =
     (let n = int (length xs)
      in if 0 \<le> i \<and> i < n then Some (nat i)
         else if - n \<le> i \<and> i < 0 then Some (nat (n + i))
         else None)"

definition get_color :: "SimpleGoBoard \<Rightarrow> int \<Rightarrow> py_error + marker" where
  "get_color b point =
     (case np_index (board b) point of
        None \<Rightarrow> Inl IndexError
      | Some i \<Rightarrow> Inr (board b ! i))"

subsection \<open>Construction\<close>

text \<open>
  \<^verbatim>\<open>a[start:stop] = v\<close> on a numpy array: each bound is clipped to the array, a
  negative bound counting from the end.
\<close>

definition slice_bound :: "int \<Rightarrow> int \<Rightarrow> int" where
  "slice_bound n i = (if i < 0 then max 0 (i + n) else min i n)"

definition slice_fill :: "'a list \<Rightarrow> int \<Rightarrow> int \<Rightarrow> 'a \<Rightarrow> 'a list" where
  "slice_fill xs start stop v =
     (let n = int (length xs); lo = slice_bound n start; hi = slice_bound n stop
      in map (\<lambda>i. if lo \<le> int i \<and> int i < hi then v else xs ! i) [0..<length xs])"

definition row_start :: "SimpleGoBoard \<Rightarrow> int \<Rightarrow> py_error + int" where
  "row_start b row =
     (if \<not> row \<ge> 1 then Inl AssertionError
      else if \<not> row \<le> size_b b then Inl AssertionError
      else Inr (row * NS b + 1))"

fun init_rows :: "SimpleGoBoard \<Rightarrow> int list \<Rightarrow> marker list \<Rightarrow> py_error + marker list" where
  "init_rows b [] cells = Inr cells"
| "init_rows b (row # rows) cells =
     (case row_start b row of
        Inl e \<Rightarrow> Inl e
      | Inr start \<Rightarrow> init_rows b rows (slice_fill cells start (start + size_b b) EMPTY))"

definition initialize_empty_points :: "SimpleGoBoard \<Rightarrow> marker list \<Rightarrow> py_error + marker list" where
  "initialize_empty_points b cells = init_rows b [1..size_b b] cells"

text \<open>
  \<^verbatim>\<open>reset\<close> overwrites every field, so the model builds the object anew.
  \<open>size * size + 3 * (size + 1)\<close> is positive for every integer, so \<^verbatim>\<open>np.full\<close>
  never sees a negative length.
\<close>

definition reset :: "int \<Rightarrow> py_error + SimpleGoBoard" where
  "reset sz =
     (let b = \<lparr> size_b = sz, NS = sz + 1, WE = 1, ko_recapture = None,
                current_player = BLACK, maxpoint = sz * sz + 3 * (sz + 1),
                board = replicate (nat (sz * sz + 3 * (sz + 1))) BORDER,
                winner = None \<rparr>
      in case initialize_empty_points b (board b) of
           Inl e \<Rightarrow> Inl e
         | Inr cells \<Rightarrow> Inr (b\<lparr>board := cells\<rparr>))"

definition board_init :: "int \<Rightarrow> int \<Rightarrow> py_error + SimpleGoBoard" where
  "board_init MAXSIZE sz =
     (if \<not> (2 \<le> sz \<and> sz \<le> MAXSIZE) then Inl AssertionError else reset sz)"

subsection \<open>Neighbours and eyes\<close>

definition neighbors :: "SimpleGoBoard \<Rightarrow> int \<Rightarrow> int list" where
  "neighbors b point = [point - 1, point + 1, point - NS b, point + NS b]"

definition diag_neighbors :: "SimpleGoBoard \<Rightarrow> int \<Rightarrow> int list" where
  "diag_neighbors b point =
     [point - NS b - 1, point - NS b + 1, point + NS b - 1, point + NS b + 1]"

fun surrounded_loop :: "SimpleGoBoard \<Rightarrow> marker \<Rightarrow> int list \<Rightarrow> py_error + bool" where
  "surrounded_loop b color [] = Inr True"
| "surrounded_loop b color (nb # nbs) =
     (case get_color b nb of
        Inl e \<Rightarrow> Inl e
      | Inr nb_color \<Rightarrow>
          if nb_color \<noteq> BORDER \<and> nb_color \<noteq> color then Inr False
          else surrounded_loop b color nbs)"

definition is_surrounded :: "SimpleGoBoard \<Rightarrow> int \<Rightarrow> marker \<Rightarrow> py_error + bool" where
  "is_surrounded b point color = surrounded_loop b color (neighbors b point)"

text \<open>The loop of \<^verbatim>\<open>is_eye\<close> over the diagonal neighbours; the state is
  \<open>(false_count, at_edge)\<close>.\<close>

fun eye_loop :: "SimpleGoBoard \<Rightarrow> marker \<Rightarrow> int list \<Rightarrow> int \<times> int \<Rightarrow> py_error + int \<times> int" where
  "eye_loop b opp_color [] (false_count, at_edge) = Inr (false_count, at_edge)"
| "eye_loop b opp_color (d # ds) (false_count, at_edge) =
     (case get_color b d of
        Inl e \<Rightarrow> Inl e
      | Inr m \<Rightarrow>
          if m = BORDER then eye_loop b opp_color ds (false_count, 1)
          else if m = opp_color then eye_loop b opp_color ds (false_count + 1, at_edge)
          else eye_loop b opp_color ds (false_count, at_edge))"

definition is_eye :: "SimpleGoBoard \<Rightarrow> int \<Rightarrow> marker \<Rightarrow> py_error + bool" where
  "is_eye b point color =
     (case is_surrounded b point color of
        Inl e \<Rightarrow> Inl e
      | Inr surrounded \<Rightarrow>
          if \<not> surrounded then Inr False
          else (case eye_loop b (opponent color) (diag_neighbors b point) (0, 0) of
                  Inl e \<Rightarrow> Inl e
                | Inr (false_count, at_edge) \<Rightarrow> Inr (false_count \<le> 1 - at_edge)))"

subsection \<open>Playing a move\<close>

text \<open>
  One of the eight counting loops of \<^verbatim>\<open>play_move\<close>: \<^verbatim>\<open>for i in range(5)\<close> with the
  remaining number of rounds as first argument. A round whose location is outside
  \<open>0 < location < len(board)\<close> does nothing and does not leave the loop; a cell of
  another marker leaves it.
\<close>

fun scan :: "nat \<Rightarrow> marker list \<Rightarrow> marker \<Rightarrow> int \<Rightarrow> int \<Rightarrow> int \<Rightarrow> int" where
  "scan 0 cells color step count location = count"
| "scan (Suc n) cells color step count location =
     (if location > 0 \<and> location < int (length cells) then
        (if cells ! nat location = color
         then scan n cells color step (count + 1) (location + step)
         else count)
      else scan n cells color step count location)"

text \<open>The count of one axis: it starts at \<open>-1\<close>, the first loop adds \<open>step\<close> to the
  location, the second starts at the point again and subtracts it.\<close>

definition axis_count :: "marker list \<Rightarrow> marker \<Rightarrow> int \<Rightarrow> int \<Rightarrow> int" where
  "axis_count cells color point step =
     scan 5 cells color (- step) (scan 5 cells color step (- 1) point) point"

definition check_axis :: "SimpleGoBoard \<Rightarrow> marker \<Rightarrow> int \<Rightarrow> int \<Rightarrow> SimpleGoBoard" where
  "check_axis b color point step =
     (if axis_count (board b) color point step \<ge> 5 then b\<lparr>winner := Some color\<rparr> else b)"

definition play_move :: "SimpleGoBoard \<Rightarrow> move \<Rightarrow> marker \<Rightarrow> py_error + bool \<times> SimpleGoBoard" where
  "play_move b point color =
     (if \<not> is_black_white color then Inl AssertionError
      else case point of
        PASS \<Rightarrow> Inr (True, b\<lparr>current_player := opponent color\<rparr>)
      | Point p \<Rightarrow>
          (case np_index (board b) p of
             None \<Rightarrow> Inl IndexError
           | Some i \<Rightarrow>
               if board b ! i \<noteq> EMPTY then Inr (False, b)
               else
                 let b1 = b\<lparr>board := (board b)[i := color]\<rparr>;
                     b2 = check_axis b1 color p 1;
                     b3 = check_axis b2 color p (size_b b2 + 1);
                     b4 = check_axis b3 color p (size_b b3 + 2);
                     b5 = check_axis b4 color p (size_b b4)
                 in Inr (True, b5\<lparr>current_player := opponent color\<rparr>)))"

subsection \<open>Objects in a store\<close>

text \<open>
  \<^verbatim>\<open>is_legal\<close> plays the move on a copy, so what it leaves of the board depends
  on which arrays the two objects share. The store holds the objects and the arrays
  apart: an object's \<open>board\<close> is the address of its array, a new object or array
  takes the next free address.
\<close>

type_synonym SimpleGoBoard_obj = "nat board_fields"

record store =
  objs :: "SimpleGoBoard_obj list"
  arrs :: "marker list list"

text \<open>The board value of an object: its fields, with the contents of its array.\<close>

definition load :: "store \<Rightarrow> nat \<Rightarrow> SimpleGoBoard" where
  "load h self =
     (let ob = objs h ! self
      in \<lparr> size_b = size_b ob, NS = NS ob, WE = WE ob, ko_recapture = ko_recapture ob,
           current_player = current_player ob, maxpoint = maxpoint ob,
           board = arrs h ! board ob, winner = winner ob \<rparr>)"

text \<open>A method that has run on \<open>self\<close> leaves its fields in the object and the cells
  in the array the object points to: the array is updated in place.\<close>

definition store_back :: "store \<Rightarrow> nat \<Rightarrow> SimpleGoBoard \<Rightarrow> store" where
  "store_back h self b =
     (let ob = objs h ! self
      in h\<lparr> objs := (objs h)[self :=
                \<lparr> size_b = size_b b, NS = NS b, WE = WE b, ko_recapture = ko_recapture b,
                  current_player = current_player b, maxpoint = maxpoint b,
                  board = board ob, winner = winner b \<rparr>],
            arrs := (arrs h)[board ob := board b] \<rparr>)"

definition upd_obj :: "store \<Rightarrow> nat \<Rightarrow> (SimpleGoBoard_obj \<Rightarrow> SimpleGoBoard_obj) \<Rightarrow> store" where
  "upd_obj h r f = h\<lparr>objs := (objs h)[r := f (objs h ! r)]\<rparr>"

text \<open>\<^verbatim>\<open>SimpleGoBoard(size)\<close>: a new object with a new array.\<close>

definition new_board :: "int \<Rightarrow> store \<Rightarrow> int \<Rightarrow> (py_error + nat) \<times> store" where
  "new_board MAXSIZE h sz =
     (case board_init MAXSIZE sz of
        Inl e \<Rightarrow> (Inl e, h)
      | Inr b \<Rightarrow>
          (Inr (length (objs h)),
           h\<lparr> objs := objs h @
                 [\<lparr> size_b = size_b b, NS = NS b, WE = WE b, ko_recapture = ko_recapture b,
                    current_player = current_player b, maxpoint = maxpoint b,
                    board = length (arrs h), winner = winner b \<rparr>],
               arrs := arrs h @ [board b] \<rparr>))"

text \<open>\<^verbatim>\<open>copy\<close>: the scalar fields are assigned one by one, between the assertions;
  \<^verbatim>\<open>np.copy\<close> makes a new array with the contents of the array of \<open>self\<close>.\<close>

definition copy_h :: "int \<Rightarrow> store \<Rightarrow> nat \<Rightarrow> (py_error + nat) \<times> store" where
  "copy_h MAXSIZE h self =
     (case new_board MAXSIZE h (size_b (objs h ! self)) of
        (Inl e, h1) \<Rightarrow> (Inl e, h1)
      | (Inr b, h1) \<Rightarrow>
          let h2 = upd_obj h1 b (\<lambda>ob. ob\<lparr>winner := winner (objs h1 ! self)\<rparr>)
          in if \<not> NS (objs h2 ! b) = NS (objs h2 ! self) then (Inl AssertionError, h2)
             else if \<not> WE (objs h2 ! b) = WE (objs h2 ! self) then (Inl AssertionError, h2)
             else
               let h3 = upd_obj h2 b (\<lambda>ob. ob\<lparr>ko_recapture := ko_recapture (objs h2 ! self)\<rparr>);
                   h4 = upd_obj h3 b (\<lambda>ob. ob\<lparr>current_player := current_player (objs h3 ! self)\<rparr>)
               in if \<not> maxpoint (objs h4 ! b) = maxpoint (objs h4 ! self)
                  then (Inl AssertionError, h4)
                  else
                    let h5 = h4\<lparr>arrs := arrs h4 @ [arrs h4 ! board (objs h4 ! self)]\<rparr>;
                        h6 = upd_obj h5 b (\<lambda>ob. ob\<lparr>board := length (arrs h4)\<rparr>)
                    in (Inr b, h6))"

definition play_move_h :: "store \<Rightarrow> nat \<Rightarrow> move \<Rightarrow> marker \<Rightarrow> (py_error + bool) \<times> store" where
  "play_move_h h self point color =
     (case play_move (load h self) point color of
        Inl e \<Rightarrow> (Inl e, h)
      | Inr (legal, b') \<Rightarrow> (Inr legal, store_back h self b'))"

definition is_legal :: "int \<Rightarrow> store \<Rightarrow> nat \<Rightarrow> move \<Rightarrow> marker \<Rightarrow> (py_error + bool) \<times> store" where
  "is_legal MAXSIZE h self point color =
     (case copy_h MAXSIZE h self of
        (Inl e, h1) \<Rightarrow> (Inl e, h1)
      | (Inr board_copy, h1) \<Rightarrow> play_move_h h1 board_copy point color)"

text \<open>An object of the store whose array is in the store too.\<close>

definition valid_ref :: "store \<Rightarrow> nat \<Rightarrow> bool" where
  "valid_ref h self = (self < length (objs h) \<and> board (objs h ! self) < length (arrs h))"

subsection \<open>Points, well-formed boards and lines\<close>

text \<open>
  Modelled from the spec: \<^verbatim>\<open>coord_to_point\<close> of \<^verbatim>\<open>board_util\<close> is not part of
  the source; the spec gives the address of row and column, both from 1 to the size,
  as \<open>row * NS + column\<close> with \<open>NS = size + 1\<close>.
\<close>

definition coord_to_point :: "int \<Rightarrow> int \<Rightarrow> int \<Rightarrow> int" where
  "coord_to_point row col boardsize = row * (boardsize + 1) + col"

definition pt :: "SimpleGoBoard \<Rightarrow> int \<Rightarrow> int \<Rightarrow> int" where
  "pt b row col = coord_to_point row col (size_b b)"

text \<open>The addresses of the playable points of a board of size \<open>sz\<close>.\<close>

definition playable :: "int \<Rightarrow> int \<Rightarrow> bool" where
  "playable sz p =
     (1 \<le> p div (sz + 1) \<and> p div (sz + 1) \<le> sz \<and> 1 \<le> p mod (sz + 1) \<and> p mod (sz + 1) \<le> sz)"

text \<open>
  The invariant of the boards that the constructor and \<^verbatim>\<open>play_move\<close> produce: the
  size is one the constructor accepts, the derived fields fit the size, the array has
  \<open>maxpoint\<close> cells, and a cell is BORDER exactly when its address is not playable.
\<close>

definition wf_board :: "int \<Rightarrow> SimpleGoBoard \<Rightarrow> bool" where
  "wf_board MAXSIZE b =
     (2 \<le> size_b b \<and> size_b b \<le> MAXSIZE \<and> NS b = size_b b + 1 \<and> WE b = 1 \<and>
      maxpoint b = size_b b * size_b b + 3 * (size_b b + 1) \<and>
      int (length (board b)) = maxpoint b \<and>
      (\<forall>i \<in> set [0..<length (board b)].
         (board b ! i = BORDER) = (\<not> playable (size_b b) (int i))))"

text \<open>
  The point \<open>p\<close> lies in a line of five cells of colour \<open>c\<close> along the stride
  \<open>step\<close>: some window of five addresses \<open>p + (j - k) * step\<close>, \<open>j = 0..4\<close>, with
  \<open>p\<close> at its position \<open>k\<close>, lies in the array and holds \<open>c\<close> throughout. A
  contiguous line of five or more through \<open>p\<close> contains such a window, and such a
  window is such a line.
\<close>

definition five_in_line :: "marker list \<Rightarrow> marker \<Rightarrow> int \<Rightarrow> int \<Rightarrow> bool" where
  "five_in_line cells c p step =
     (\<exists>k \<in> set [0..4]. \<forall>j \<in> set [0..4].
        0 \<le> p + (j - k) * step \<and> p + (j - k) * step < int (length cells) \<and>
        cells ! nat (p + (j - k) * step) = c)"

definition strides :: "SimpleGoBoard \<Rightarrow> int list" where
  "strides b = [1, size_b b + 1, size_b b + 2, size_b b]"

text \<open>The cell at address \<open>q\<close> is one that the counting loops count for colour \<open>c\<close>.\<close>

definition stone_at :: "marker list \<Rightarrow> marker \<Rightarrow> int \<Rightarrow> bool" where
  "stone_at cells c q = (0 < q \<and> q < int (length cells) \<and> cells ! nat q = c)"

subsection \<open>Boards for the examples\<close>

text \<open>The empty board of size 2: the playable points are 4, 5, 7 and 8.\<close>

definition empty2 :: SimpleGoBoard where
  "empty2 = \<lparr> size_b = 2, NS = 3, WE = 1, ko_recapture = None, current_player = BLACK,
              maxpoint = 13,
              board = [BORDER, BORDER, BORDER, BORDER, EMPTY, EMPTY, BORDER, EMPTY, EMPTY,
                       BORDER, BORDER, BORDER, BORDER],
              winner = None \<rparr>"

text \<open>Size 2, WHITE on 5 and 7: the corner 4 has no liberty left.\<close>

definition corner2 :: SimpleGoBoard where
  "corner2 = empty2\<lparr>board := [BORDER, BORDER, BORDER, BORDER, EMPTY, WHITE, BORDER, WHITE, EMPTY,
                               BORDER, BORDER, BORDER, BORDER]\<rparr>"

text \<open>Size 3, the centre 10 with BLACK on its four orthogonal neighbours 6, 9, 11 and
  14, and WHITE on two of its diagonal neighbours, 7 and 13; the two others, 5 and 15,
  are EMPTY.\<close>

definition centre3 :: SimpleGoBoard where
  "centre3 = \<lparr> size_b = 3, NS = 4, WE = 1, ko_recapture = None, current_player = BLACK,
               maxpoint = 21,
               board = [BORDER, BORDER, BORDER, BORDER,
                        BORDER, EMPTY, BLACK, WHITE,
                        BORDER, BLACK, EMPTY, BLACK,
                        BORDER, WHITE, BLACK, EMPTY,
                        BORDER, BORDER, BORDER, BORDER, BORDER],
               winner = None \<rparr>"

text \<open>Size 5, BLACK on columns 1 to 4 of row 3 (addresses 19 to 22); address 23 is
  column 5 of that row.\<close>

definition row3_four :: SimpleGoBoard where
  "row3_four = \<lparr> size_b = 5, NS = 6, WE = 1, ko_recapture = None, current_player = BLACK,
                 maxpoint = 43,
                 board = replicate 6 BORDER @
                         (BORDER # replicate 5 EMPTY) @
                         (BORDER # replicate 5 EMPTY) @
                         [BORDER, BLACK, BLACK, BLACK, BLACK, EMPTY] @
                         (BORDER # replicate 5 EMPTY) @
                         (BORDER # replicate 5 EMPTY) @
                         replicate 7 BORDER,
                 winner = None \<rparr>"

text \<open>Size 5 after a win of BLACK on row 1 (addresses 7 to 11), WHITE on columns 1 to 4
  of row 3.\<close>

definition black_won :: SimpleGoBoard where
  "black_won = \<lparr> size_b = 5, NS = 6, WE = 1, ko_recapture = None, current_player = WHITE,
                 maxpoint = 43,
                 board = replicate 6 BORDER @
                         (BORDER # replicate 5 BLACK) @
                         (BORDER # replicate 5 EMPTY) @
                         [BORDER, WHITE, WHITE, WHITE, WHITE, EMPTY] @
                         (BORDER # replicate 5 EMPTY) @
                         (BORDER # replicate 5 EMPTY) @
                         replicate 7 BORDER,
                 winner = Some BLACK \<rparr>"

text \<open>A store with one object, whose board is \<open>corner2\<close>, and the same store with
  WHITE to move.\<close>

definition store2 :: store where
  "store2 = \<lparr> objs = [\<lparr> size_b = 2, NS = 3, WE = 1, ko_recapture = None,
                        current_player = BLACK, maxpoint = 13, board = 0, winner = None \<rparr>],
               arrs = board corner2 # [] \<rparr>"

definition store2w :: store where
  "store2w = upd_obj store2 0 (\<lambda>ob. ob\<lparr>current_player := WHITE\<rparr>)"

section \<open>Properties\<close>

subsection \<open>Basic facts\<close>

lemma check_axis_fields:
  "size_b (check_axis b color p step) = size_b b"
  "NS (check_axis b color p step) = NS b"
  "WE (check_axis b color p step) = WE b"
  "ko_recapture (check_axis b color p step) = ko_recapture b"
  "current_player (check_axis b color p step) = current_player b"
  "maxpoint (check_axis b color p step) = maxpoint b"
  "board (check_axis b color p step) = board b"
  by (simp_all add: check_axis_def)

lemma np_index_Some: "np_index xs p = Some i \<Longrightarrow> i < length xs"
  by (auto simp: np_index_def Let_def split: if_splits)

lemma np_index_nonneg: "0 \<le> p \<Longrightarrow> p < int (length xs) \<Longrightarrow> np_index xs p = Some (nat p)"
  by (simp add: np_index_def)

lemma play_move_result:
  assumes "is_black_white c" "0 \<le> p" "p < int (length (board b))" "board b ! nat p = EMPTY"
  shows "play_move b (Point p) c =
         Inr (True, b\<lparr> board := (board b)[nat p := c],
                        winner := (if \<exists>step \<in> set (strides b).
                                        5 \<le> axis_count ((board b)[nat p := c]) c p step
                                   then Some c else winner b),
                        current_player := opponent c \<rparr>)"
  using assms
  by (simp add: play_move_def np_index_nonneg Let_def check_axis_def strides_def)

lemma get_color_nonneg:
  "0 \<le> q \<Longrightarrow> q < int (length (board b)) \<Longrightarrow> get_color b q = Inr (board b ! nat q)"
  by (simp add: get_color_def np_index_nonneg)

lemma wf_board_length:
  "wf_board M b \<Longrightarrow> int (length (board b)) = size_b b * size_b b + 3 * (size_b b + 1)"
  by (simp add: wf_board_def)

lemma wf_board_border:
  "wf_board M b \<Longrightarrow> 0 \<le> q \<Longrightarrow> q < int (length (board b)) \<Longrightarrow>
   (board b ! nat q = BORDER) = (\<not> playable (size_b b) q)"
  by (auto simp: wf_board_def)

lemma wf_board_zero:
  assumes "wf_board M b"
  shows "0 < length (board b)" "board b ! 0 = BORDER"
proof -
  have len: "int (length (board b)) = size_b b * size_b b + 3 * (size_b b + 1)"
    and s: "2 \<le> size_b b"
    using assms by (simp_all add: wf_board_def)
  have "0 < 3 * (size_b b + 1)" using s by simp
  then have "0 < size_b b * size_b b + 3 * (size_b b + 1)"
    by (intro add_nonneg_pos) simp_all
  then have "0 < int (length (board b))" by (simp only: len)
  then show l: "0 < length (board b)" by simp
  have "\<not> playable (size_b b) (int 0)" using assms by (simp add: playable_def wf_board_def)
  then show "board b ! 0 = BORDER" using assms l by (simp add: wf_board_def)
qed

lemma wf_board_cp: "wf_board M (b\<lparr>current_player := cp\<rparr>) = wf_board M b"
  by (simp add: wf_board_def)

text \<open>The boards of the examples satisfy the invariant.\<close>

lemma corner2_wf: "wf_board 25 corner2"
  by code_simp

lemma row3_wf: "wf_board 25 row3_four"
  by code_simp

lemma black_won_wf: "wf_board 25 black_won"
  by code_simp

subsection \<open>Rejected moves and passes\<close>

text \<open>
  C2. A move of BLACK or WHITE on a point other than PASS whose cell holds a marker
  other than EMPTY returns false, and the board it returns is the board it was given:
  cells, current player, winner and ko point are all as before.
\<close>

theorem play_move_occupied:
  assumes "is_black_white c"
    and "get_color b p = Inr m"
    and "m \<noteq> EMPTY"
  shows "play_move b (Point p) c = Inr (False, b)"
  using assms by (auto simp: play_move_def get_color_def split: option.splits)

theorem play_move_occupied_witness:
  "is_black_white BLACK \<and> get_color corner2 5 = Inr WHITE \<and> WHITE \<noteq> EMPTY \<and>
   play_move corner2 (Point 5) BLACK = Inr (False, corner2)"
  using play_move_occupied [of BLACK corner2 5 WHITE]
  by (simp add: is_black_white_def get_color_def np_index_def corner2_def empty2_def)

text \<open>
  C3. A pass of BLACK or WHITE returns true; the board it returns differs from the
  given one in the current player only, which is the opponent of the colour that
  passed.
\<close>

theorem play_move_pass:
  assumes "is_black_white c"
  shows "play_move b PASS c = Inr (True, b\<lparr>current_player := opponent c\<rparr>)"
  using assms by (simp add: play_move_def)

theorem play_move_pass_witness:
  "is_black_white BLACK \<and>
   play_move empty2 PASS BLACK = Inr (True, empty2\<lparr>current_player := WHITE\<rparr>)"
  using play_move_pass [of BLACK empty2]
  by (simp add: is_black_white_def)

subsection \<open>Accepted moves\<close>

text \<open>
  C5. A move of BLACK or WHITE on an address of the array whose cell is EMPTY returns
  true, and the cells of the board it returns are the old cells with the colour written
  at that address: no other cell changes, so no stone is removed, and the move is not
  taken back, whatever the liberties of the blocks around it.
\<close>

theorem play_move_empty:
  assumes "is_black_white c"
    and "0 \<le> p" and "p < int (length (board b))"
    and "board b ! nat p = EMPTY"
  shows "\<exists>b'. play_move b (Point p) c = Inr (True, b') \<and>
              board b' = (board b)[nat p := c]"
  using assms
  by (simp add: play_move_def np_index_nonneg Let_def check_axis_fields)

text \<open>BLACK plays the corner 4 of \<open>corner2\<close>, whose two neighbours on the board are
  WHITE: the stone has no liberty, and it stays.\<close>

theorem play_move_empty_witness:
  "is_black_white BLACK \<and> (0::int) \<le> 4 \<and> 4 < int (length (board corner2)) \<and>
   board corner2 ! nat 4 = EMPTY \<and>
   (\<exists>b'. play_move corner2 (Point 4) BLACK = Inr (True, b') \<and>
     board b' = [BORDER, BORDER, BORDER, BORDER, BLACK, WHITE, BORDER, WHITE, EMPTY,
                 BORDER, BORDER, BORDER, BORDER])"
  using play_move_empty [of BLACK 4 corner2]
  by (simp add: is_black_white_def corner2_def empty2_def)

subsection \<open>Addresses\<close>

lemma playable_coords:
  assumes "0 \<le> sz" "1 \<le> row" "row \<le> sz" "1 \<le> col" "col \<le> sz"
  shows "playable sz (row * (sz + 1) + col)"
proof -
  have d: "(row * (sz + 1) + col) div (sz + 1) = row"
    using assms by (simp add: div_pos_pos_trivial)
  have m: "(row * (sz + 1) + col) mod (sz + 1) = col"
    using assms by (simp add: mod_pos_pos_trivial)
  show ?thesis unfolding playable_def d m using assms by simp
qed

lemma playable_bounds:
  assumes "2 \<le> sz" "playable sz p"
  shows "sz + 2 \<le> p" "p \<le> sz * sz + 2 * sz"
proof -
  define r where "r = p div (sz + 1)"
  define c where "c = p mod (sz + 1)"
  have p: "p = r * (sz + 1) + c"
    unfolding r_def c_def by (simp only: div_mult_mod_eq)
  have r: "1 \<le> r" "r \<le> sz" and c: "1 \<le> c" "c \<le> sz"
    using assms(2) by (simp_all add: playable_def r_def c_def)
  have lo: "1 * (sz + 1) \<le> r * (sz + 1)"
    using r(1) assms(1) by (intro mult_right_mono) auto
  have hi: "r * (sz + 1) \<le> sz * (sz + 1)"
    using r(2) assms(1) by (intro mult_right_mono) auto
  show "sz + 2 \<le> p" using lo c(1) p by simp
  have "sz * (sz + 1) = sz * sz + sz" by (simp add: algebra_simps)
  then show "p \<le> sz * sz + 2 * sz" using hi c(2) p by simp
qed

lemma around_playable:
  assumes wf: "wf_board M b" and pl: "playable (size_b b) p"
    and q: "q \<in> set (neighbors b p @ diag_neighbors b p)"
  shows "0 \<le> q \<and> q < int (length (board b))"
proof -
  have s: "2 \<le> size_b b" and ns: "NS b = size_b b + 1"
    using wf by (simp_all add: wf_board_def)
  note bd = playable_bounds [OF s pl]
  have len: "int (length (board b)) = size_b b * size_b b + 3 * (size_b b + 1)"
    using wf by (rule wf_board_length)
  have "p - NS b - 1 \<le> q \<and> q \<le> p + NS b + 1"
    using q s ns by (auto simp: neighbors_def diag_neighbors_def)
  then have "0 \<le> q" and "q < size_b b * size_b b + 3 * (size_b b + 1)"
    using bd ns by simp_all
  then show ?thesis using len by simp
qed

text \<open>
  C7. On a well-formed board of size \<open>s\<close>, each of the eight neighbour addresses of
  the point of row and column between 1 and \<open>s\<close> lies in \<open>[0, s * s + 3 * (s + 1))\<close>,
  which is the range of the array: reading it raises no error, and what is read is the
  cell of a playable point or BORDER.
\<close>

theorem neighbors_in_range:
  assumes "wf_board M b"
    and "1 \<le> row" and "row \<le> size_b b" and "1 \<le> col" and "col \<le> size_b b"
    and "q \<in> set (neighbors b (pt b row col) @ diag_neighbors b (pt b row col))"
  shows "0 \<le> q \<and> q < size_b b * size_b b + 3 * (size_b b + 1) \<and>
         q < int (length (board b)) \<and>
         get_color b q = Inr (board b ! nat q) \<and>
         (playable (size_b b) q \<or> board b ! nat q = BORDER)"
proof -
  have s: "0 \<le> size_b b" using assms(1) by (simp add: wf_board_def)
  have pl: "playable (size_b b) (pt b row col)"
    unfolding pt_def coord_to_point_def using s assms(2-5) by (rule playable_coords)
  have r: "0 \<le> q \<and> q < int (length (board b))"
    using assms(1) pl assms(6) by (rule around_playable)
  then show ?thesis
    using wf_board_length [OF assms(1)] wf_board_border [OF assms(1), of q]
    by (simp add: get_color_nonneg)
qed

theorem neighbors_in_range_witness:
  "wf_board 25 corner2 \<and> (1::int) \<le> 1 \<and> 1 \<le> size_b corner2 \<and>
   0 \<in> set (neighbors corner2 (pt corner2 1 1) @ diag_neighbors corner2 (pt corner2 1 1)) \<and>
   (0::int) < 2 * 2 + 3 * (2 + 1) \<and> get_color corner2 0 = Inr BORDER"
proof -
  have wf: "wf_board 25 corner2" by code_simp
  have q: "0 \<in> set (neighbors corner2 (pt corner2 1 1) @ diag_neighbors corner2 (pt corner2 1 1))"
    by (simp add: neighbors_def diag_neighbors_def pt_def coord_to_point_def corner2_def empty2_def)
  have s: "1 \<le> size_b corner2" by (simp add: corner2_def empty2_def)
  show ?thesis
    using neighbors_in_range [OF wf _ s _ s q] wf q s
    by (simp add: corner2_def empty2_def)
qed

subsection \<open>Eyes\<close>

lemma surrounded_loop_eq:
  assumes "\<forall>q \<in> set qs. 0 \<le> q \<and> q < int (length (board b))"
  shows "surrounded_loop b c qs =
         Inr (\<forall>nb \<in> set qs. board b ! nat nb = BORDER \<or> board b ! nat nb = c)"
  using assms by (induction qs) (auto simp: get_color_nonneg)

lemma eye_loop_eq:
  assumes "\<forall>q \<in> set qs. 0 \<le> q \<and> q < int (length (board b))" and "opp \<noteq> BORDER"
  shows "eye_loop b opp qs (fc, ae) =
         Inr (fc + int (length (filter (\<lambda>d. board b ! nat d = opp) qs)),
              if \<exists>d \<in> set qs. board b ! nat d = BORDER then 1 else ae)"
  using assms by (induction qs arbitrary: fc ae) (auto simp: get_color_nonneg)

lemma centre3_wf: "wf_board 25 centre3"
  by code_simp

lemma centre3_one_wf: "wf_board 25 (centre3\<lparr>board := (board centre3)[13 := EMPTY]\<rparr>)"
  by code_simp

lemma corner2_false_wf: "wf_board 25 (corner2\<lparr>board := (board corner2)[8 := BLACK]\<rparr>)"
  by code_simp

text \<open>
  C8. On a well-formed board of size \<open>s\<close>, for a playable point \<open>p\<close> and BLACK or
  WHITE, \<^verbatim>\<open>is_eye\<close> returns true exactly when each of the four cells at \<open>p - 1\<close>,
  \<open>p + 1\<close>, \<open>p - (s + 1)\<close> and \<open>p + (s + 1)\<close> is BORDER or of the colour, and the
  number of cells of the opponent's colour among the four at \<open>p - (s + 1) - 1\<close>,
  \<open>p - (s + 1) + 1\<close>, \<open>p + (s + 1) - 1\<close> and \<open>p + (s + 1) + 1\<close> is at most
  \<open>1 - at_edge\<close>, where \<open>at_edge\<close> is 1 if one of these four is BORDER and 0
  otherwise. The right-hand side mentions these eight cells only.
\<close>

theorem is_eye_iff:
  assumes "wf_board M b" and "playable (size_b b) p" and "is_black_white c"
  shows "is_eye b p c =
         Inr ((\<forall>nb \<in> set [p - 1, p + 1, p - (size_b b + 1), p + (size_b b + 1)].
                 board b ! nat nb = BORDER \<or> board b ! nat nb = c) \<and>
              int (length (filter (\<lambda>d. board b ! nat d = opponent c)
                     [p - (size_b b + 1) - 1, p - (size_b b + 1) + 1,
                      p + (size_b b + 1) - 1, p + (size_b b + 1) + 1]))
                \<le> 1 - (if \<exists>d \<in> set [p - (size_b b + 1) - 1, p - (size_b b + 1) + 1,
                                        p + (size_b b + 1) - 1, p + (size_b b + 1) + 1].
                             board b ! nat d = BORDER
                        then 1 else 0))"
proof -
  have ns: "NS b = size_b b + 1" using assms(1) by (simp add: wf_board_def)
  have nb: "neighbors b p = [p - 1, p + 1, p - (size_b b + 1), p + (size_b b + 1)]"
    by (simp add: neighbors_def ns)
  have dg: "diag_neighbors b p =
              [p - (size_b b + 1) - 1, p - (size_b b + 1) + 1,
               p + (size_b b + 1) - 1, p + (size_b b + 1) + 1]"
    by (simp add: diag_neighbors_def ns)
  have n: "\<forall>q \<in> set (neighbors b p). 0 \<le> q \<and> q < int (length (board b))"
    and d: "\<forall>q \<in> set (diag_neighbors b p). 0 \<le> q \<and> q < int (length (board b))"
    using around_playable [OF assms(1,2)] by auto
  have opp: "opponent c \<noteq> BORDER"
    using assms(3) by (auto simp: is_black_white_def)
  have "is_eye b p c =
         Inr ((\<forall>nb \<in> set (neighbors b p). board b ! nat nb = BORDER \<or> board b ! nat nb = c) \<and>
              int (length (filter (\<lambda>d. board b ! nat d = opponent c) (diag_neighbors b p)))
                \<le> 1 - (if \<exists>d \<in> set (diag_neighbors b p). board b ! nat d = BORDER
                        then 1 else 0))"
    unfolding is_eye_def is_surrounded_def
    by (simp add: surrounded_loop_eq [OF n] eye_loop_eq [OF d opp])
  then show ?thesis unfolding nb dg .
qed

text \<open>On \<open>centre3\<close> the centre is surrounded by BLACK and has two WHITE diagonal
  neighbours: no eye of BLACK. With one of the two taken away it is one. For WHITE the
  centre is not surrounded. The corner 4 of \<open>corner2\<close> is an eye of WHITE; with a BLACK
  stone on its diagonal neighbour 8 it is none, for a point at the edge tolerates no
  diagonal neighbour of the opponent.\<close>

theorem is_eye_iff_witness:
  "wf_board 25 centre3 \<and> playable (size_b centre3) 10 \<and> is_black_white BLACK \<and>
   is_eye centre3 10 BLACK = Inr False \<and>
   is_eye (centre3\<lparr>board := (board centre3)[13 := EMPTY]\<rparr>) 10 BLACK = Inr True \<and>
   is_eye centre3 10 WHITE = Inr False \<and>
   is_eye corner2 4 WHITE = Inr True \<and>
   is_eye (corner2\<lparr>board := (board corner2)[8 := BLACK]\<rparr>) 4 WHITE = Inr False"
proof -
  have pl: "playable (size_b centre3) 10" by code_simp
  have pl1: "playable (size_b (centre3\<lparr>board := (board centre3)[13 := EMPTY]\<rparr>)) 10" by code_simp
  have pl2: "playable (size_b corner2) 4" by code_simp
  have pl3: "playable (size_b (corner2\<lparr>board := (board corner2)[8 := BLACK]\<rparr>)) 4" by code_simp
  have k: "is_black_white BLACK" and w: "is_black_white WHITE"
    by (simp_all add: is_black_white_def)
  have 1: "is_eye centre3 10 BLACK = Inr False"
    using is_eye_iff [OF centre3_wf pl k] by (simp add: centre3_def)
  have 2: "is_eye (centre3\<lparr>board := (board centre3)[13 := EMPTY]\<rparr>) 10 BLACK = Inr True"
    using is_eye_iff [OF centre3_one_wf pl1 k] by (simp add: centre3_def)
  have 3: "is_eye centre3 10 WHITE = Inr False"
    using is_eye_iff [OF centre3_wf pl w] by (simp add: centre3_def)
  have 4: "is_eye corner2 4 WHITE = Inr True"
    using is_eye_iff [OF corner2_wf pl2 w] by (simp add: corner2_def empty2_def)
  have 5: "is_eye (corner2\<lparr>board := (board corner2)[8 := BLACK]\<rparr>) 4 WHITE = Inr False"
    using is_eye_iff [OF corner2_false_wf pl3 w] by (simp add: corner2_def empty2_def)
  show ?thesis using centre3_wf pl k 1 2 3 4 5 by simp
qed

subsection \<open>Construction\<close>

lemma length_slice_fill: "length (slice_fill xs start stop v) = length xs"
  by (simp add: slice_fill_def Let_def)

lemma slice_fill_nth:
  assumes "0 \<le> start" "0 \<le> stop" "i < length xs"
  shows "slice_fill xs start stop v ! i =
         (if start \<le> int i \<and> int i < stop then v else xs ! i)"
  using assms by (auto simp: slice_fill_def slice_bound_def Let_def)

lemma init_rows_eq:
  assumes "\<forall>row \<in> set rows. 1 \<le> row \<and> row \<le> size_b b" and "0 \<le> NS b"
  shows "\<exists>cells'. init_rows b rows cells = Inr cells' \<and> length cells' = length cells \<and>
           (\<forall>i < length cells. cells' ! i =
              (if \<exists>row \<in> set rows. row * NS b + 1 \<le> int i \<and> int i < row * NS b + 1 + size_b b
               then EMPTY else cells ! i))"
  using assms
proof (induction rows arbitrary: cells)
  case Nil
  then show ?case by simp
next
  case (Cons row rows)
  let ?start = "row * NS b + 1"
  let ?cells1 = "slice_fill cells ?start (?start + size_b b) EMPTY"
  have row: "1 \<le> row" "row \<le> size_b b" using Cons.prems by simp_all
  have st: "0 \<le> ?start" "0 \<le> ?start + size_b b" using row Cons.prems(2) by simp_all
  have rs: "row_start b row = Inr ?start" using row by (simp add: row_start_def)
  from Cons.IH [of ?cells1] Cons.prems
  obtain cells' where c: "init_rows b rows ?cells1 = Inr cells'"
    "length cells' = length ?cells1"
    "\<forall>i < length ?cells1. cells' ! i =
        (if \<exists>row \<in> set rows. row * NS b + 1 \<le> int i \<and> int i < row * NS b + 1 + size_b b
         then EMPTY else ?cells1 ! i)"
    by auto
  have "init_rows b (row # rows) cells = Inr cells'" using rs c(1) by simp
  moreover have "length cells' = length cells" using c(2) by (simp add: length_slice_fill)
  moreover have "\<forall>i < length cells. cells' ! i =
        (if \<exists>r \<in> set (row # rows). r * NS b + 1 \<le> int i \<and> int i < r * NS b + 1 + size_b b
         then EMPTY else cells ! i)"
    using c(3) st by (auto simp: length_slice_fill slice_fill_nth)
  ultimately show ?case by blast
qed

lemma playable_iff_row:
  assumes "0 \<le> sz"
  shows "playable sz p =
         (\<exists>row \<in> {1..sz}. row * (sz + 1) + 1 \<le> p \<and> p < row * (sz + 1) + 1 + sz)"
proof
  assume pl: "playable sz p"
  define r where "r = p div (sz + 1)"
  define c where "c = p mod (sz + 1)"
  have p: "p = r * (sz + 1) + c"
    unfolding r_def c_def by (simp only: div_mult_mod_eq)
  have "1 \<le> r" "r \<le> sz" "1 \<le> c" "c \<le> sz"
    using pl by (simp_all add: playable_def r_def c_def)
  then have "r \<in> {1..sz} \<and> r * (sz + 1) + 1 \<le> p \<and> p < r * (sz + 1) + 1 + sz"
    using p by simp
  then show "\<exists>row \<in> {1..sz}. row * (sz + 1) + 1 \<le> p \<and> p < row * (sz + 1) + 1 + sz"
    by blast
next
  assume "\<exists>row \<in> {1..sz}. row * (sz + 1) + 1 \<le> p \<and> p < row * (sz + 1) + 1 + sz"
  then obtain row where row: "1 \<le> row" "row \<le> sz"
    and p: "row * (sz + 1) + 1 \<le> p" "p < row * (sz + 1) + 1 + sz"
    by auto
  define c where "c = p - row * (sz + 1)"
  have "1 \<le> c" "c \<le> sz" "p = row * (sz + 1) + c" using p by (simp_all add: c_def)
  then show "playable sz p" using playable_coords [OF assms row, of c] by simp
qed

lemma card_playable:
  assumes "0 \<le> sz" and "sz * sz + 2 * sz < int n"
  shows "card {i. i < n \<and> playable sz (int i)} = nat (sz * sz)"
proof -
  let ?f = "\<lambda>(r, c). nat (r * (sz + 1) + c)"
  have inj: "inj_on ?f ({1..sz} \<times> {1..sz})"
  proof (rule inj_onI, clarify)
    fix r c r' c'
    assume h: "r \<in> {1..sz}" "c \<in> {1..sz}" "r' \<in> {1..sz}" "c' \<in> {1..sz}"
      and eq: "nat (r * (sz + 1) + c) = nat (r' * (sz + 1) + c')"
    have "0 \<le> r * (sz + 1)" "0 \<le> r' * (sz + 1)" using h by simp_all
    then have "0 \<le> r * (sz + 1) + c" "0 \<le> r' * (sz + 1) + c'" using h by simp_all
    then have e: "r * (sz + 1) + c = r' * (sz + 1) + c'" using eq by (simp only: eq_nat_nat_iff)
    have "(r * (sz + 1) + c) div (sz + 1) = r" "(r' * (sz + 1) + c') div (sz + 1) = r'"
      using h by (simp_all add: div_pos_pos_trivial)
    then have "r = r'" using e by simp
    then show "r = r' \<and> c = c'" using e by simp
  qed
  have "{i. i < n \<and> playable sz (int i)} = ?f ` ({1..sz} \<times> {1..sz})"
  proof (intro set_eqI iffI)
    fix i assume "i \<in> {i. i < n \<and> playable sz (int i)}"
    then have pl: "playable sz (int i)" by simp
    define r where "r = int i div (sz + 1)"
    define c where "c = int i mod (sz + 1)"
    have "int i = r * (sz + 1) + c" unfolding r_def c_def by (simp only: div_mult_mod_eq)
    then have "i = ?f (r, c)" by simp
    moreover have "(r, c) \<in> {1..sz} \<times> {1..sz}"
      using pl by (simp add: playable_def r_def c_def)
    ultimately show "i \<in> ?f ` ({1..sz} \<times> {1..sz})" by blast
  next
    fix i assume "i \<in> ?f ` ({1..sz} \<times> {1..sz})"
    then obtain r c where rc: "1 \<le> r" "r \<le> sz" "1 \<le> c" "c \<le> sz"
      and i: "i = nat (r * (sz + 1) + c)" by auto
    have nn: "0 \<le> r * (sz + 1)" using rc assms by simp
    then have ii: "int i = r * (sz + 1) + c" using i rc by simp
    have pl: "playable sz (int i)" unfolding ii using assms(1) rc by (rule playable_coords)
    have "r * (sz + 1) \<le> sz * (sz + 1)" using rc assms by (intro mult_right_mono) auto
    moreover have "sz * (sz + 1) = sz * sz + sz" by (simp add: algebra_simps)
    ultimately have "int i \<le> sz * sz + 2 * sz" using ii rc by simp
    then have "i < n" using assms(2) by simp
    then show "i \<in> {i. i < n \<and> playable sz (int i)}" using pl by simp
  qed
  then have "card {i. i < n \<and> playable sz (int i)} = card ({1..sz} \<times> {1..sz})"
    using inj by (simp add: card_image)
  also have "\<dots> = nat sz * nat sz" by (simp add: card_cartesian_product)
  also have "\<dots> = nat (sz * sz)" using assms(1) by (simp add: nat_mult_distrib)
  finally show ?thesis .
qed

lemma reset_eq:
  assumes "2 \<le> sz"
  shows "\<exists>cells. reset sz = Inr \<lparr> size_b = sz, NS = sz + 1, WE = 1, ko_recapture = None,
                current_player = BLACK, maxpoint = sz * sz + 3 * (sz + 1),
                board = cells, winner = None \<rparr> \<and>
           int (length cells) = sz * sz + 3 * (sz + 1) \<and>
           (\<forall>i < length cells. cells ! i = (if playable sz (int i) then EMPTY else BORDER))"
proof -
  let ?n = "nat (sz * sz + 3 * (sz + 1))"
  let ?b = "\<lparr> size_b = sz, NS = sz + 1, WE = 1, ko_recapture = None,
                current_player = BLACK, maxpoint = sz * sz + 3 * (sz + 1),
                board = replicate ?n BORDER, winner = None \<rparr>"
  have pos: "0 \<le> sz * sz" by simp
  have "\<forall>row \<in> set [1..size_b ?b]. 1 \<le> row \<and> row \<le> size_b ?b" by simp
  moreover have "0 \<le> NS ?b" using assms by simp
  ultimately obtain cells where c: "init_rows ?b [1..size_b ?b] (replicate ?n BORDER) = Inr cells"
    "length cells = length (replicate ?n BORDER)"
    "\<forall>i < length (replicate ?n BORDER). cells ! i =
        (if \<exists>row \<in> set [1..size_b ?b]. row * NS ?b + 1 \<le> int i \<and> int i < row * NS ?b + 1 + size_b ?b
         then EMPTY else replicate ?n BORDER ! i)"
    using init_rows_eq [of "[1..size_b ?b]" ?b "replicate ?n BORDER"] by blast
  have len: "int (length cells) = sz * sz + 3 * (sz + 1)"
    using c(2) pos assms by simp
  have "\<forall>i < length cells. cells ! i = (if playable sz (int i) then EMPTY else BORDER)"
  proof (intro allI impI)
    fix i assume i: "i < length cells"
    then have "i < length (replicate ?n BORDER)" using c(2) by simp
    with c(3) have "cells ! i =
        (if \<exists>row \<in> set [1..size_b ?b]. row * NS ?b + 1 \<le> int i \<and> int i < row * NS ?b + 1 + size_b ?b
         then EMPTY else replicate ?n BORDER ! i)" by blast
    moreover have "replicate ?n BORDER ! i = BORDER" using i c(2) by simp
    moreover have "playable sz (int i) =
        (\<exists>row \<in> {1..sz}. row * (sz + 1) + 1 \<le> int i \<and> int i < row * (sz + 1) + 1 + sz)"
      using assms by (intro playable_iff_row) simp
    ultimately show "cells ! i = (if playable sz (int i) then EMPTY else BORDER)"
      by simp
  qed
  moreover have "reset sz = Inr (?b\<lparr>board := cells\<rparr>)"
    using c(1) by (simp add: reset_def initialize_empty_points_def Let_def)
  ultimately show ?thesis using len by simp
qed

lemma count_empty:
  assumes "0 \<le> sz" and "int (length cells) = sz * sz + 3 * (sz + 1)"
    and "\<forall>i < length cells. cells ! i = (if playable sz (int i) then EMPTY else BORDER)"
  shows "int (length (filter (\<lambda>m. m = EMPTY) cells)) = sz * sz"
proof -
  have "{i. i < length cells \<and> cells ! i = EMPTY} = {i. i < length cells \<and> playable sz (int i)}"
    using assms(3) by (auto split: if_splits)
  then have "length (filter (\<lambda>m. m = EMPTY) cells) = card {i. i < length cells \<and> playable sz (int i)}"
    by (simp add: length_filter_conv_card)
  also have "\<dots> = nat (sz * sz)"
    using assms(1,2) by (intro card_playable) simp_all
  finally show ?thesis by simp
qed

lemma board_init_2: "board_init 25 2 = Inr empty2"
  by code_simp

text \<open>
  C6. For a size from 2 to \<open>MAXSIZE\<close> the constructor returns a board whose array has
  \<open>size * size + 3 * (size + 1)\<close> cells, of which exactly \<open>size * size\<close> are EMPTY:
  the cells from \<open>row_start row = row * (size + 1) + 1\<close> on, \<open>size\<close> of them, for each
  row from 1 to \<open>size\<close>. Every other cell is BORDER, no cell is BLACK or WHITE, BLACK
  is to move, and winner and ko point are unset. For any other size the constructor
  fails its assertion.
\<close>

theorem board_init_fresh:
  "(2 \<le> sz \<and> sz \<le> M \<longrightarrow>
      (\<exists>b. board_init M sz = Inr b \<and> size_b b = sz \<and>
         int (length (board b)) = sz * sz + 3 * (sz + 1) \<and>
         int (length (filter (\<lambda>m. m = EMPTY) (board b))) = sz * sz \<and>
         (\<forall>row \<in> {1..sz}. row_start b row = Inr (row * (sz + 1) + 1)) \<and>
         (\<forall>i < length (board b). board b ! i =
            (if \<exists>row \<in> {1..sz}. row * (sz + 1) + 1 \<le> int i \<and> int i < row * (sz + 1) + 1 + sz
             then EMPTY else BORDER)) \<and>
         BLACK \<notin> set (board b) \<and> WHITE \<notin> set (board b) \<and>
         current_player b = BLACK \<and> winner b = None \<and> ko_recapture b = None)) \<and>
   (\<not> (2 \<le> sz \<and> sz \<le> M) \<longrightarrow> board_init M sz = Inl AssertionError)"
proof (intro conjI impI)
  assume sz: "2 \<le> sz \<and> sz \<le> M"
  then have s2: "2 \<le> sz" and s0: "0 \<le> sz" by simp_all
  from reset_eq [OF s2] obtain cells where
    r: "reset sz = Inr \<lparr> size_b = sz, NS = sz + 1, WE = 1, ko_recapture = None,
                current_player = BLACK, maxpoint = sz * sz + 3 * (sz + 1),
                board = cells, winner = None \<rparr>"
    and len: "int (length cells) = sz * sz + 3 * (sz + 1)"
    and c: "\<forall>i < length cells. cells ! i = (if playable sz (int i) then EMPTY else BORDER)"
    by blast
  let ?b = "\<lparr> size_b = sz, NS = sz + 1, WE = 1, ko_recapture = None,
                current_player = BLACK, maxpoint = sz * sz + 3 * (sz + 1),
                board = cells, winner = None \<rparr>"
  have i: "board_init M sz = Inr ?b" using sz r by (simp add: board_init_def)
  have cnt: "int (length (filter (\<lambda>m. m = EMPTY) cells)) = sz * sz"
    using s0 len c by (rule count_empty)
  have rows: "\<forall>row \<in> {1..sz}. row_start ?b row = Inr (row * (sz + 1) + 1)"
    by (simp add: row_start_def)
  have cells: "\<forall>i < length cells. cells ! i =
            (if \<exists>row \<in> {1..sz}. row * (sz + 1) + 1 \<le> int i \<and> int i < row * (sz + 1) + 1 + sz
             then EMPTY else BORDER)"
    using c playable_iff_row [OF s0] by simp
  have "\<forall>m \<in> set cells. m = EMPTY \<or> m = BORDER"
    using c by (auto simp: in_set_conv_nth split: if_splits)
  then have nobw: "BLACK \<notin> set cells" "WHITE \<notin> set cells" by auto
  show "\<exists>b. board_init M sz = Inr b \<and> size_b b = sz \<and>
         int (length (board b)) = sz * sz + 3 * (sz + 1) \<and>
         int (length (filter (\<lambda>m. m = EMPTY) (board b))) = sz * sz \<and>
         (\<forall>row \<in> {1..sz}. row_start b row = Inr (row * (sz + 1) + 1)) \<and>
         (\<forall>i < length (board b). board b ! i =
            (if \<exists>row \<in> {1..sz}. row * (sz + 1) + 1 \<le> int i \<and> int i < row * (sz + 1) + 1 + sz
             then EMPTY else BORDER)) \<and>
         BLACK \<notin> set (board b) \<and> WHITE \<notin> set (board b) \<and>
         current_player b = BLACK \<and> winner b = None \<and> ko_recapture b = None"
    using i len cnt rows cells nobw by (intro exI [of _ ?b]) simp
next
  assume "\<not> (2 \<le> sz \<and> sz \<le> M)"
  then show "board_init M sz = Inl AssertionError" by (simp add: board_init_def)
qed

theorem board_init_fresh_witness:
  "(2::int) \<le> 2 \<and> (2::int) \<le> 25 \<and> board_init 25 2 = Inr empty2 \<and>
   length (board empty2) = 13 \<and> length (filter (\<lambda>m. m = EMPTY) (board empty2)) = 4 \<and>
   \<not> (2 \<le> (1::int) \<and> (1::int) \<le> 25) \<and> board_init 25 1 = Inl AssertionError"
  using board_init_fresh [of 2 25] board_init_fresh [of 1 25]
  by (simp add: board_init_2 empty2_def)

text \<open>The constructor establishes the invariant and \<^verbatim>\<open>play_move\<close> keeps it.\<close>

lemma board_init_wf_board:
  assumes "board_init M sz = Inr b"
  shows "wf_board M b"
proof -
  have s: "2 \<le> sz" "sz \<le> M" and r: "reset sz = Inr b"
    using assms by (auto simp: board_init_def split: if_splits)
  from reset_eq [OF s(1)] r obtain cells where
    b: "b = \<lparr> size_b = sz, NS = sz + 1, WE = 1, ko_recapture = None,
                current_player = BLACK, maxpoint = sz * sz + 3 * (sz + 1),
                board = cells, winner = None \<rparr>"
    and len: "int (length cells) = sz * sz + 3 * (sz + 1)"
    and c: "\<forall>i < length cells. cells ! i = (if playable sz (int i) then EMPTY else BORDER)"
    by auto
  show ?thesis using s len c by (simp add: b wf_board_def)
qed

lemma play_move_wf:
  assumes "wf_board M b" and "play_move b mv c = Inr (r, b')"
  shows "wf_board M b'"
proof (cases mv)
  case PASS
  then show ?thesis using assms by (auto simp: play_move_def wf_board_def split: if_splits)
next
  case (Point p)
  show ?thesis
  proof (cases r)
    case False
    then have "b' = b"
      using assms(2) Point
      by (auto simp: play_move_def Let_def split: if_splits option.splits)
    then show ?thesis using assms(1) by simp
  next
    case True
    then obtain i where i: "np_index (board b) p = Some i" "board b ! i = EMPTY"
      and bw: "is_black_white c"
      and b': "board b' = (board b)[i := c]" "size_b b' = size_b b" "NS b' = NS b"
        "WE b' = WE b" "maxpoint b' = maxpoint b"
      using assms(2) Point
      by (auto simp: play_move_def Let_def check_axis_fields split: if_splits option.splits)
    have il: "i < length (board b)" using i(1) by (rule np_index_Some)
    have old: "(board b ! j = BORDER) = (\<not> playable (size_b b) (int j))"
      if "j < length (board b)" for j
      using assms(1) that by (simp add: wf_board_def)
    have pi: "playable (size_b b) (int i)" using old [OF il] i(2) by simp
    have "((board b)[i := c] ! j = BORDER) = (\<not> playable (size_b b) (int j))"
      if "j < length (board b)" for j
      using that old [OF that] pi il bw by (cases "j = i") (auto simp: is_black_white_def)
    then show ?thesis using assms(1) b' by (simp add: wf_board_def)
  qed
qed

subsection \<open>The winner\<close>

lemma scan_outside:
  "\<not> (0 < loc \<and> loc < int (length cells)) \<Longrightarrow> scan n cells c step count loc = count"
  by (induction n) auto

lemma scan_Suc:
  "scan (Suc n) cells c step count loc =
     (if stone_at cells c loc then scan n cells c step (count + 1) (loc + step) else count)"
  using scan_outside [of loc cells n c step count] by (auto simp: stone_at_def)

lemma scan_bounds:
  "count \<le> scan n cells c step count loc \<and> scan n cells c step count loc \<le> count + int n"
proof (induction n arbitrary: count loc)
  case 0
  show ?case by simp
next
  case (Suc n)
  show ?case
    using Suc [of "count + 1" "loc + step"] by (simp only: scan_Suc) auto
qed

lemma scan_ge:
  assumes "0 \<le> m" and "m \<le> int n"
  shows "(count + m \<le> scan n cells c step count loc) =
         (\<forall>j. 0 \<le> j \<and> j < m \<longrightarrow> stone_at cells c (loc + j * step))"
  using assms
proof (induction n arbitrary: count loc m)
  case 0
  then show ?case by auto
next
  case (Suc n)
  show ?case
  proof (cases "m = 0")
    case True
    then show ?thesis using scan_bounds [of count "Suc n" cells c step loc] by auto
  next
    case False
    then have m1: "0 \<le> m - 1" "m - 1 \<le> int n" using Suc.prems by simp_all
    show ?thesis
    proof (cases "stone_at cells c loc")
      case st: True
      have "(count + m \<le> scan (Suc n) cells c step count loc) =
            ((count + 1) + (m - 1) \<le> scan n cells c step (count + 1) (loc + step))"
        using st by (simp only: scan_Suc) simp
      also have "\<dots> = (\<forall>j. 0 \<le> j \<and> j < m - 1 \<longrightarrow> stone_at cells c (loc + step + j * step))"
        using Suc.IH [OF m1] .
      also have "\<dots> = (\<forall>j. 0 \<le> j \<and> j < m \<longrightarrow> stone_at cells c (loc + j * step))"
      proof
        assume h: "\<forall>j. 0 \<le> j \<and> j < m - 1 \<longrightarrow> stone_at cells c (loc + step + j * step)"
        show "\<forall>j. 0 \<le> j \<and> j < m \<longrightarrow> stone_at cells c (loc + j * step)"
        proof (intro allI impI)
          fix j assume j: "0 \<le> j \<and> j < m"
          show "stone_at cells c (loc + j * step)"
          proof (cases "j = 0")
            case True
            then show ?thesis using st by simp
          next
            case False
            then have "0 \<le> j - 1 \<and> j - 1 < m - 1" using j by simp
            then have "stone_at cells c (loc + step + (j - 1) * step)" using h by blast
            then show ?thesis by (simp add: algebra_simps)
          qed
        qed
      next
        assume h: "\<forall>j. 0 \<le> j \<and> j < m \<longrightarrow> stone_at cells c (loc + j * step)"
        show "\<forall>j. 0 \<le> j \<and> j < m - 1 \<longrightarrow> stone_at cells c (loc + step + j * step)"
        proof (intro allI impI)
          fix j assume "0 \<le> j \<and> j < m - 1"
          then have "0 \<le> j + 1 \<and> j + 1 < m" by simp
          then have "stone_at cells c (loc + (j + 1) * step)" using h by blast
          then show "stone_at cells c (loc + step + j * step)" by (simp add: algebra_simps)
        qed
      qed
      finally show ?thesis .
    next
      case nst: False
      have "scan (Suc n) cells c step count loc = count"
        using nst by (simp only: scan_Suc) simp
      moreover have "0 \<le> (0::int) \<and> 0 < m" using False Suc.prems by simp
      ultimately show ?thesis using nst False Suc.prems by force
    qed
  qed
qed

lemma five_in_line_stone_at:
  assumes "\<not> (0 < length cells \<and> cells ! 0 = c)"
  shows "five_in_line cells c p step =
         (\<exists>k. 0 \<le> k \<and> k \<le> 4 \<and> (\<forall>j. 0 \<le> j \<and> j \<le> 4 \<longrightarrow> stone_at cells c (p + (j - k) * step)))"
proof -
  have "(0 \<le> q \<and> q < int (length cells) \<and> cells ! nat q = c) = stone_at cells c q" for q
    using assms by (cases "q = 0") (auto simp: stone_at_def)
  then show ?thesis
    unfolding five_in_line_def by (simp add: Bex_def Ball_def)
qed

text \<open>A window of five through the point is the same as a contiguous line through it,
  from the address \<open>p + lo * step\<close> to the address \<open>p + hi * step\<close>, of five cells or
  more.\<close>

lemma five_in_line_run:
  "five_in_line cells c p step =
     (\<exists>lo hi. lo \<le> 0 \<and> 0 \<le> hi \<and> 5 \<le> hi - lo + 1 \<and>
        (\<forall>j. lo \<le> j \<and> j \<le> hi \<longrightarrow>
           0 \<le> p + j * step \<and> p + j * step < int (length cells) \<and>
           cells ! nat (p + j * step) = c))"
proof
  assume "five_in_line cells c p step"
  then obtain k where k: "0 \<le> k" "k \<le> 4"
    and w: "\<forall>j. 0 \<le> j \<and> j \<le> 4 \<longrightarrow>
           0 \<le> p + (j - k) * step \<and> p + (j - k) * step < int (length cells) \<and>
           cells ! nat (p + (j - k) * step) = c"
    by (auto simp: five_in_line_def)
  have "\<forall>j. - k \<le> j \<and> j \<le> 4 - k \<longrightarrow>
           0 \<le> p + j * step \<and> p + j * step < int (length cells) \<and>
           cells ! nat (p + j * step) = c"
  proof (intro allI impI)
    fix j assume "- k \<le> j \<and> j \<le> 4 - k"
    then have "0 \<le> j + k \<and> j + k \<le> 4" by simp
    then have "0 \<le> p + (j + k - k) * step \<and> p + (j + k - k) * step < int (length cells) \<and>
           cells ! nat (p + (j + k - k) * step) = c" using w by blast
    then show "0 \<le> p + j * step \<and> p + j * step < int (length cells) \<and>
           cells ! nat (p + j * step) = c" by simp
  qed
  moreover have "- k \<le> 0" "0 \<le> 4 - k" "5 \<le> (4 - k) - (- k) + 1" using k by simp_all
  ultimately show "\<exists>lo hi. lo \<le> 0 \<and> 0 \<le> hi \<and> 5 \<le> hi - lo + 1 \<and>
        (\<forall>j. lo \<le> j \<and> j \<le> hi \<longrightarrow>
           0 \<le> p + j * step \<and> p + j * step < int (length cells) \<and>
           cells ! nat (p + j * step) = c)" by blast
next
  assume "\<exists>lo hi. lo \<le> 0 \<and> 0 \<le> hi \<and> 5 \<le> hi - lo + 1 \<and>
        (\<forall>j. lo \<le> j \<and> j \<le> hi \<longrightarrow>
           0 \<le> p + j * step \<and> p + j * step < int (length cells) \<and>
           cells ! nat (p + j * step) = c)"
  then obtain lo hi where b: "lo \<le> 0" "0 \<le> hi" "5 \<le> hi - lo + 1"
    and r: "\<forall>j. lo \<le> j \<and> j \<le> hi \<longrightarrow>
           0 \<le> p + j * step \<and> p + j * step < int (length cells) \<and>
           cells ! nat (p + j * step) = c" by blast
  define k where "k = min 4 (- lo)"
  have k: "0 \<le> k" "k \<le> 4" using b by (simp_all add: k_def)
  have "\<forall>j \<in> set [0..4].
        0 \<le> p + (j - k) * step \<and> p + (j - k) * step < int (length cells) \<and>
        cells ! nat (p + (j - k) * step) = c"
  proof
    fix j :: int assume "j \<in> set [0..4]"
    then have "lo \<le> j - k \<and> j - k \<le> hi" using b by (auto simp: k_def)
    then show "0 \<le> p + (j - k) * step \<and> p + (j - k) * step < int (length cells) \<and>
        cells ! nat (p + (j - k) * step) = c" using r by blast
  qed
  moreover have "k \<in> set [0..4]" using k by simp
  ultimately show "five_in_line cells c p step" unfolding five_in_line_def by blast
qed

lemma axis_count_iff:
  assumes "\<not> (0 < length cells \<and> cells ! 0 = c)"
  shows "(5 \<le> axis_count cells c p step) = five_in_line cells c p step"
proof -
  define f where "f = scan 5 cells c step (- 1) p + 1"
  define bk where "bk = scan 5 cells c (- step) (f - 1) p - (f - 1)"
  have ax: "axis_count cells c p step = f + bk - 1"
    by (simp add: axis_count_def f_def bk_def)
  have fb: "0 \<le> f" "f \<le> 5"
    using scan_bounds [of "- 1" 5 cells c step p] by (simp_all add: f_def)
  have bb: "0 \<le> bk" "bk \<le> 5"
    using scan_bounds [of "f - 1" 5 cells c "- step" p] by (simp_all add: bk_def)
  have F: "(m \<le> f) = (\<forall>j. 0 \<le> j \<and> j < m \<longrightarrow> stone_at cells c (p + j * step))"
    if "0 \<le> m" "m \<le> 5" for m
  proof -
    have e: "(m \<le> f) = (- 1 + m \<le> scan 5 cells c step (- 1) p)"
      by (auto simp: f_def)
    show ?thesis unfolding e using that by (intro scan_ge) simp_all
  qed
  have B: "(m \<le> bk) = (\<forall>j. 0 \<le> j \<and> j < m \<longrightarrow> stone_at cells c (p + j * (- step)))"
    if "0 \<le> m" "m \<le> 5" for m
  proof -
    have e: "(m \<le> bk) = (f - 1 + m \<le> scan 5 cells c (- step) (f - 1) p)"
      by (auto simp: bk_def)
    show ?thesis unfolding e using that by (intro scan_ge) simp_all
  qed
  have "(6 \<le> f + bk) =
        (\<exists>k. 0 \<le> k \<and> k \<le> 4 \<and> (\<forall>j. 0 \<le> j \<and> j \<le> 4 \<longrightarrow> stone_at cells c (p + (j - k) * step)))"
  proof
    assume six: "6 \<le> f + bk"
    define k where "k = bk - 1"
    have k: "0 \<le> k" "k \<le> 4" using six fb bb by (simp_all add: k_def)
    have fw: "\<forall>j. 0 \<le> j \<and> j < f \<longrightarrow> stone_at cells c (p + j * step)"
      using F [of f] fb by simp
    have bw: "\<forall>j. 0 \<le> j \<and> j < bk \<longrightarrow> stone_at cells c (p + j * (- step))"
      using B [of bk] bb by simp
    have "stone_at cells c (p + (j - k) * step)" if j: "0 \<le> j \<and> j \<le> 4" for j
    proof (cases "k \<le> j")
      case True
      then have "0 \<le> j - k \<and> j - k < f" using j six bb by (simp add: k_def)
      then show ?thesis using fw by blast
    next
      case False
      then have "0 \<le> k - j \<and> k - j < bk" using j by (simp add: k_def)
      then have "stone_at cells c (p + (k - j) * (- step))" using bw by blast
      moreover have "p + (k - j) * (- step) = p + (j - k) * step" by (simp add: algebra_simps)
      ultimately show ?thesis by metis
    qed
    then show "\<exists>k. 0 \<le> k \<and> k \<le> 4 \<and> (\<forall>j. 0 \<le> j \<and> j \<le> 4 \<longrightarrow> stone_at cells c (p + (j - k) * step))"
      using k by blast
  next
    assume "\<exists>k. 0 \<le> k \<and> k \<le> 4 \<and> (\<forall>j. 0 \<le> j \<and> j \<le> 4 \<longrightarrow> stone_at cells c (p + (j - k) * step))"
    then obtain k where k: "0 \<le> k" "k \<le> 4"
      and l: "\<forall>j. 0 \<le> j \<and> j \<le> 4 \<longrightarrow> stone_at cells c (p + (j - k) * step)" by blast
    have "\<forall>j. 0 \<le> j \<and> j < 5 - k \<longrightarrow> stone_at cells c (p + j * step)"
    proof (intro allI impI)
      fix j assume "0 \<le> j \<and> j < 5 - k"
      then have "0 \<le> j + k \<and> j + k \<le> 4" using k by simp
      then have "stone_at cells c (p + (j + k - k) * step)" using l by blast
      then show "stone_at cells c (p + j * step)" by simp
    qed
    then have f: "5 - k \<le> f" using F [of "5 - k"] k by simp
    have "\<forall>j. 0 \<le> j \<and> j < k + 1 \<longrightarrow> stone_at cells c (p + j * (- step))"
    proof (intro allI impI)
      fix j assume "0 \<le> j \<and> j < k + 1"
      then have "0 \<le> k - j \<and> k - j \<le> 4" using k by simp
      then have "stone_at cells c (p + (k - j - k) * step)" using l by blast
      moreover have "p + (k - j - k) * step = p + j * (- step)" by (simp add: algebra_simps)
      ultimately show "stone_at cells c (p + j * (- step))" by metis
    qed
    then have "k + 1 \<le> bk" using B [of "k + 1"] k by simp
    then show "6 \<le> f + bk" using f by simp
  qed
  moreover have "(5 \<le> axis_count cells c p step) = (6 \<le> f + bk)"
    unfolding ax by auto
  ultimately show ?thesis
    using five_in_line_stone_at [OF assms, of p step] by (simp only:)
qed

lemma row3_e: "board row3_four ! nat 23 = EMPTY"
  by code_simp

lemma row3_line: "five_in_line ((board row3_four)[nat 23 := BLACK]) BLACK 23 1"
  by code_simp

lemma row3_no_line:
  "\<not> (\<exists>step \<in> set (strides row3_four). five_in_line ((board row3_four)[nat 23 := WHITE]) WHITE 23 step)"
  by code_simp

text \<open>
  C1. On a well-formed board, a move of BLACK or WHITE on an address of the array whose
  cell is EMPTY returns true, and afterwards the winner is the colour if the point lies
  in a line of five cells of that colour along one of the strides 1, \<open>size + 1\<close>,
  \<open>size + 2\<close> and \<open>size\<close>, and is the winner of before if not. For every stride the
  count of the axis, which starts at \<open>-1\<close> and counts the point in both loops, reaches
  5 exactly when the point lies in such a line of five.
\<close>

theorem play_move_winner:
  assumes "wf_board M b" and "is_black_white c"
    and "0 \<le> p" and "p < int (length (board b))" and "board b ! nat p = EMPTY"
  shows "\<exists>b'. play_move b (Point p) c = Inr (True, b') \<and>
           winner b' = (if \<exists>step \<in> set (strides b). five_in_line (board b') c p step
                        then Some c else winner b) \<and>
           (\<forall>step. (5 \<le> axis_count (board b') c p step) = five_in_line (board b') c p step)"
proof -
  let ?cells = "(board b)[nat p := c]"
  have "nat p \<noteq> 0" using assms(5) wf_board_zero(2) [OF assms(1)] by auto
  then have "?cells ! 0 = BORDER" using wf_board_zero [OF assms(1)] by simp
  then have z: "\<not> (0 < length ?cells \<and> ?cells ! 0 = c)"
    using assms(2) by (auto simp: is_black_white_def)
  show ?thesis
    using play_move_result [OF assms(2-5)] axis_count_iff [OF z] by simp
qed

text \<open>The fifth BLACK stone of row 3 wins; a WHITE stone on the same point, next to
  four BLACK ones, leaves the winner unset.\<close>

theorem play_move_winner_witness:
  "wf_board 25 row3_four \<and> is_black_white BLACK \<and> is_black_white WHITE \<and> (0::int) \<le> 23 \<and>
   23 < int (length (board row3_four)) \<and> board row3_four ! nat 23 = EMPTY \<and>
   winner row3_four = None \<and>
   (\<exists>b'. play_move row3_four (Point 23) BLACK = Inr (True, b') \<and> winner b' = Some BLACK) \<and>
   (\<exists>b'. play_move row3_four (Point 23) WHITE = Inr (True, b') \<and> winner b' = None)"
proof -
  have k: "is_black_white BLACK" and k': "is_black_white WHITE"
    by (simp_all add: is_black_white_def)
  have l: "23 < int (length (board row3_four))" by (simp add: row3_four_def)
  have s: "1 \<in> set (strides row3_four)" by (simp add: strides_def)
  have n: "winner row3_four = None" by (simp add: row3_four_def)
  have "\<exists>b'. play_move row3_four (Point 23) BLACK = Inr (True, b') \<and> winner b' = Some BLACK"
    using play_move_winner [OF row3_wf k _ l row3_e] play_move_result [OF k _ l row3_e]
      row3_line s by auto
  moreover
  have "\<exists>b'. play_move row3_four (Point 23) WHITE = Inr (True, b') \<and> winner b' = None"
    using play_move_winner [OF row3_wf k' _ l row3_e] play_move_result [OF k' _ l row3_e]
      row3_no_line n by auto
  ultimately show ?thesis using row3_wf k k' l row3_e n by simp
qed

text \<open>A negative index reaches a cell from the end of the array, as numpy has it; the
  loops see a location that is not positive and count nothing.\<close>

lemma play_move_negative_point:
  assumes "is_black_white c" and "- int (length (board b)) \<le> p" and "p < 0"
    and "board b ! nat (int (length (board b)) + p) = EMPTY"
  shows "\<exists>b'. play_move b (Point p) c = Inr (True, b') \<and> winner b' = winner b"
proof -
  have "scan n cells c step count p = count" for n cells step count
    using assms(3) by (intro scan_outside) simp
  then have "axis_count cells c p step = - 1" for cells step
    by (simp add: axis_count_def)
  then show ?thesis
    using assms by (simp add: play_move_def np_index_def Let_def check_axis_def)
qed

lemma play_move_winner_upd:
  "\<exists>upd. \<forall>w. play_move (b\<lparr>winner := w\<rparr>) mv c =
      map_sum id (apsnd (\<lambda>b'. b'\<lparr>winner := (case upd of None \<Rightarrow> w | Some x \<Rightarrow> Some x)\<rparr>))
        (play_move b mv c)"
proof (cases "is_black_white c")
  case False
  then show ?thesis by (simp add: play_move_def)
next
  case bw: True
  show ?thesis
  proof (cases mv)
    case PASS
    have "\<forall>w. play_move (b\<lparr>winner := w\<rparr>) mv c =
      map_sum id (apsnd (\<lambda>b'. b'\<lparr>winner := (case None :: marker option of None \<Rightarrow> w | Some x \<Rightarrow> Some x)\<rparr>))
        (play_move b mv c)"
      using bw PASS by (simp add: play_move_def)
    then show ?thesis by blast
  next
    case (Point p)
    show ?thesis
    proof (cases "np_index (board b) p")
      case None
      then show ?thesis using bw Point by (simp add: play_move_def)
    next
      case (Some i)
      show ?thesis
      proof (cases "board b ! i = EMPTY")
        case False
        have "\<forall>w. play_move (b\<lparr>winner := w\<rparr>) mv c =
          map_sum id (apsnd (\<lambda>b'. b'\<lparr>winner := (case None :: marker option of None \<Rightarrow> w | Some x \<Rightarrow> Some x)\<rparr>))
            (play_move b mv c)"
          using bw Point Some False by (simp add: play_move_def)
        then show ?thesis by blast
      next
        case True
        define upd where "upd = (if \<exists>step \<in> set (strides b).
                                      5 \<le> axis_count ((board b)[i := c]) c p step
                                 then Some c else None)"
        have "\<forall>w. play_move (b\<lparr>winner := w\<rparr>) mv c =
          map_sum id (apsnd (\<lambda>b'. b'\<lparr>winner := (case upd of None \<Rightarrow> w | Some x \<Rightarrow> Some x)\<rparr>))
            (play_move b mv c)"
          using bw Point Some True
          by (simp add: play_move_def Let_def check_axis_def strides_def upd_def)
        then show ?thesis by blast
      qed
    qed
  qed
qed

lemma play_move_winner_kept:
  assumes "play_move b mv c = Inr (r, b')" and "winner b \<noteq> None"
  shows "winner b' \<noteq> None"
  using assms
  by (auto simp: play_move_def Let_def check_axis_def split: if_splits move.splits option.splits)

lemma black_won_move:
  "play_move black_won (Point 23) WHITE =
     Inr (True, black_won\<lparr> board := (board black_won)[23 := WHITE], winner := Some WHITE,
                            current_player := BLACK \<rparr>)"
  by code_simp

text \<open>
  C9. \<^verbatim>\<open>play_move\<close> does not read the winner: on two boards that differ in the
  winner only it returns the same result, except that the winner of the board it
  returns is either the one it was given or the colour that moved, by a choice that
  does not depend on the winner given. So a move of BLACK or WHITE on an EMPTY cell is
  accepted when the winner is set; a winner that is set stays set; and on the board
  \<open>black_won\<close>, where BLACK has won, WHITE completes five in a row and becomes the
  winner.
\<close>

theorem play_move_ignores_winner:
  "(\<exists>upd. \<forall>w. play_move (b\<lparr>winner := w\<rparr>) mv c =
      map_sum id (apsnd (\<lambda>b'. b'\<lparr>winner := (case upd of None \<Rightarrow> w | Some x \<Rightarrow> Some x)\<rparr>))
        (play_move b mv c)) \<and>
   (winner b = Some c0 \<and> is_black_white c \<and> 0 \<le> p \<and> p < int (length (board b)) \<and>
    board b ! nat p = EMPTY \<longrightarrow>
      (\<exists>b'. play_move b (Point p) c = Inr (True, b') \<and>
            (winner b' = Some c0 \<or> winner b' = Some c))) \<and>
   (\<forall>r b'. play_move b mv c = Inr (r, b') \<and> winner b \<noteq> None \<longrightarrow> winner b' \<noteq> None) \<and>
   (wf_board 25 black_won \<and> winner black_won = Some BLACK \<and>
    (\<exists>b'. play_move black_won (Point 23) WHITE = Inr (True, b') \<and> winner b' = Some WHITE))"
proof (intro conjI)
  show "\<exists>upd. \<forall>w. play_move (b\<lparr>winner := w\<rparr>) mv c =
      map_sum id (apsnd (\<lambda>b'. b'\<lparr>winner := (case upd of None \<Rightarrow> w | Some x \<Rightarrow> Some x)\<rparr>))
        (play_move b mv c)"
    by (rule play_move_winner_upd)
  show "winner b = Some c0 \<and> is_black_white c \<and> 0 \<le> p \<and> p < int (length (board b)) \<and>
    board b ! nat p = EMPTY \<longrightarrow>
      (\<exists>b'. play_move b (Point p) c = Inr (True, b') \<and>
            (winner b' = Some c0 \<or> winner b' = Some c))"
    by (auto simp: play_move_result)
  show "\<forall>r b'. play_move b mv c = Inr (r, b') \<and> winner b \<noteq> None \<longrightarrow> winner b' \<noteq> None"
    using play_move_winner_kept by blast
  show "wf_board 25 black_won" by (rule black_won_wf)
  show "winner black_won = Some BLACK" by (simp add: black_won_def)
  show "\<exists>b'. play_move black_won (Point 23) WHITE = Inr (True, b') \<and> winner b' = Some WHITE"
    by (simp add: black_won_move)
qed

theorem play_move_ignores_winner_witness:
  "winner black_won = Some BLACK \<and> is_black_white WHITE \<and> (0::int) \<le> 23 \<and>
   23 < int (length (board black_won)) \<and> board black_won ! nat 23 = EMPTY \<and>
   (\<exists>b'. play_move black_won (Point 23) WHITE = Inr (True, b') \<and> winner b' = Some WHITE)"
proof -
  have w: "winner black_won = Some BLACK" by (simp add: black_won_def)
  have k: "is_black_white WHITE" by (simp add: is_black_white_def)
  have l: "23 < int (length (board black_won))" by (simp add: black_won_def)
  have e: "board black_won ! nat 23 = EMPTY" by code_simp
  show ?thesis
    using play_move_ignores_winner [of black_won "Point 23" WHITE BLACK 23] w k l e
    by simp
qed

subsection \<open>Legality on a copy\<close>

lemma board_init_wf:
  assumes "wf_board M b"
  shows "\<exists>cells. board_init M (size_b b) =
           Inr \<lparr> size_b = size_b b, NS = NS b, WE = WE b, ko_recapture = None,
                 current_player = BLACK, maxpoint = maxpoint b, board = cells, winner = None \<rparr>"
proof -
  have s: "2 \<le> size_b b" "size_b b \<le> M" using assms by (simp_all add: wf_board_def)
  from reset_eq [OF s(1)] obtain cells where
    "reset (size_b b) = Inr \<lparr> size_b = size_b b, NS = size_b b + 1, WE = 1, ko_recapture = None,
                current_player = BLACK, maxpoint = size_b b * size_b b + 3 * (size_b b + 1),
                board = cells, winner = None \<rparr>" by blast
  then show ?thesis using s assms by (simp add: board_init_def wf_board_def)
qed

lemma copy_h_eq:
  assumes "valid_ref h self" and "wf_board M (load h self)"
  shows "\<exists>cells. copy_h M h self =
           (Inr (length (objs h)),
            \<lparr> objs = objs h @ [(objs h ! self)\<lparr>board := Suc (length (arrs h))\<rparr>],
              arrs = arrs h @ [cells, arrs h ! board (objs h ! self)] \<rparr>)"
proof -
  let ?ob = "objs h ! self"
  have f: "size_b (load h self) = size_b ?ob" "NS (load h self) = NS ?ob"
    "WE (load h self) = WE ?ob" "maxpoint (load h self) = maxpoint ?ob"
    by (simp_all add: load_def Let_def)
  from board_init_wf [OF assms(2)] obtain cells where
    i: "board_init M (size_b ?ob) =
           Inr \<lparr> size_b = size_b ?ob, NS = NS ?ob, WE = WE ?ob, ko_recapture = None,
                 current_player = BLACK, maxpoint = maxpoint ?ob, board = cells, winner = None \<rparr>"
    unfolding f by blast
  have self: "self < length (objs h)" using assms(1) by (simp add: valid_ref_def)
  have "copy_h M h self =
           (Inr (length (objs h)),
            \<lparr> objs = objs h @ [(objs h ! self)\<lparr>board := Suc (length (arrs h))\<rparr>],
              arrs = arrs h @ [cells, arrs h ! board (objs h ! self)] \<rparr>)"
    using self assms(1)
    by (simp add: copy_h_def new_board_def i upd_obj_def Let_def nth_append valid_ref_def)
  then show ?thesis by blast
qed

lemma load_append:
  assumes "valid_ref h self"
  shows "load \<lparr>objs = objs h @ os, arrs = arrs h @ as\<rparr> self = load h self"
  using assms by (simp add: load_def valid_ref_def Let_def nth_append)

lemma load_copy:
  assumes "valid_ref h self"
  shows "load \<lparr> objs = objs h @ [(objs h ! self)\<lparr>board := Suc (length (arrs h))\<rparr>],
               arrs = arrs h @ [cells, arrs h ! board (objs h ! self)] \<rparr> (length (objs h))
         = load h self"
  using assms by (simp add: load_def valid_ref_def Let_def nth_append)

lemma store_back_copy:
  "store_back \<lparr> objs = os @ [ob\<lparr>board := Suc (length as)\<rparr>], arrs = as @ [cells, cells'] \<rparr>
      (length os) b' =
   \<lparr> objs = os @ [\<lparr> size_b = size_b b', NS = NS b', WE = WE b', ko_recapture = ko_recapture b',
                     current_player = current_player b', maxpoint = maxpoint b',
                     board = Suc (length as), winner = winner b' \<rparr>],
     arrs = as @ [cells, board b'] \<rparr>"
  by (simp add: store_back_def Let_def nth_append list_update_append)

lemma is_legal_eq:
  assumes "valid_ref h self" and "wf_board M (load h self)"
  shows "\<exists>os as. is_legal M h self mv c =
           (map_sum id fst (play_move (load h self) mv c),
            \<lparr>objs = objs h @ os, arrs = arrs h @ as\<rparr>)"
proof -
  from copy_h_eq [OF assms] obtain cells where
    c: "copy_h M h self =
           (Inr (length (objs h)),
            \<lparr> objs = objs h @ [(objs h ! self)\<lparr>board := Suc (length (arrs h))\<rparr>],
              arrs = arrs h @ [cells, arrs h ! board (objs h ! self)] \<rparr>)" by blast
  show ?thesis
  proof (cases "play_move (load h self) mv c")
    case (Inl e)
    then show ?thesis
      using c load_copy [OF assms(1)]
      by (simp add: is_legal_def play_move_h_def)
  next
    case (Inr rb)
    then obtain r b' where rb: "play_move (load h self) mv c = Inr (r, b')"
      by (cases rb) simp
    then show ?thesis
      using c load_copy [OF assms(1)]
      by (simp add: is_legal_def play_move_h_def store_back_copy)
  qed
qed

lemma store2_valid: "valid_ref store2 0"
  by (simp add: valid_ref_def store2_def)

lemma store2_load: "load store2 0 = corner2"
  by (simp add: load_def store2_def corner2_def empty2_def)

lemma store2w_valid: "valid_ref store2w 0"
  by (simp add: valid_ref_def store2w_def upd_obj_def store2_def)

lemma store2w_load: "load store2w 0 = corner2\<lparr>current_player := WHITE\<rparr>"
  by (simp add: load_def store2w_def upd_obj_def store2_def corner2_def empty2_def)

lemma corner2_move:
  "play_move corner2 (Point 4) BLACK =
     Inr (True, corner2\<lparr>board := (board corner2)[4 := BLACK], current_player := WHITE\<rparr>)"
  by code_simp

text \<open>
  C4. For an object of the store whose board is well-formed, \<^verbatim>\<open>is_legal\<close> returns
  what \<^verbatim>\<open>play_move\<close> returns on the board value of the object, a boolean or the
  same error, and the store it leaves holds every object and every array that was
  there unchanged; what it adds are the objects and arrays of the copy. So the board
  it was called on has the same cells, size, current player, winner and ko point as
  before.
\<close>

theorem is_legal_frame:
  assumes "valid_ref h self" and "wf_board M (load h self)"
  shows "\<exists>h'. is_legal M h self mv c = (map_sum id fst (play_move (load h self) mv c), h') \<and>
              take (length (objs h)) (objs h') = objs h \<and>
              take (length (arrs h)) (arrs h') = arrs h \<and>
              load h' self = load h self"
proof -
  from is_legal_eq [OF assms] obtain os as where
    "is_legal M h self mv c =
       (map_sum id fst (play_move (load h self) mv c), \<lparr>objs = objs h @ os, arrs = arrs h @ as\<rparr>)"
    by blast
  then show ?thesis using load_append [OF assms(1)] by simp
qed

theorem is_legal_frame_witness:
  "valid_ref store2 0 \<and> wf_board 25 (load store2 0) \<and>
   (\<exists>h'. is_legal 25 store2 0 (Point 4) BLACK = (Inr True, h') \<and>
         take 1 (objs h') = objs store2 \<and> take 1 (arrs h') = arrs store2 \<and>
         load h' 0 = corner2)"
proof -
  have wf: "wf_board 25 (load store2 0)" using corner2_wf by (simp add: store2_load)
  have l: "length (objs store2) = 1" "length (arrs store2) = 1" by (simp_all add: store2_def)
  show ?thesis
    using is_legal_frame [OF store2_valid wf, of "Point 4" BLACK] store2_valid wf
    by (simp add: store2_load corner2_move l)
qed

subsection \<open>The current player\<close>

lemma play_move_cp:
  "case play_move b mv c of
      Inl e \<Rightarrow> play_move (b\<lparr>current_player := cp\<rparr>) mv c = Inl e
    | Inr (r, b') \<Rightarrow>
        play_move (b\<lparr>current_player := cp\<rparr>) mv c =
          Inr (r, if r then b' else b\<lparr>current_player := cp\<rparr>) \<and>
        (if r then current_player b' = opponent c else b' = b)"
  by (auto simp: play_move_def Let_def check_axis_def split: move.splits option.splits)

lemma play_move_cp_result:
  "map_sum id fst (play_move (b\<lparr>current_player := cp\<rparr>) mv c) =
   map_sum id fst (play_move b mv c)"
  using play_move_cp [where b = b and mv = mv and c = c and cp = cp] by (auto split: sum.splits)

text \<open>
  C10, as stated, fails where the move is rejected: BLACK on the occupied point 5 of
  \<open>corner2\<close> returns false on the board with BLACK to move and on the board with WHITE
  to move, and leaves each as it was, so the two boards still differ in the current
  player, which is not the opponent of BLACK on the first.
\<close>

theorem current_player_counterexample:
  "play_move corner2 (Point 5) BLACK = Inr (False, corner2) \<and>
   play_move (corner2\<lparr>current_player := WHITE\<rparr>) (Point 5) BLACK =
     Inr (False, corner2\<lparr>current_player := WHITE\<rparr>) \<and>
   corner2 \<noteq> corner2\<lparr>current_player := WHITE\<rparr> \<and>
   current_player corner2 \<noteq> opponent BLACK"
  by (simp add: play_move_def is_black_white_def np_index_def corner2_def empty2_def)

text \<open>
  C10, amended. \<^verbatim>\<open>play_move\<close> does not read the current player: on two boards
  that differ in the current player only it raises the same error or returns the same
  boolean. Where it returns true the two boards it returns are equal and their current
  player is the opponent of the colour that moved; where it returns false each board
  is returned as it was given. \<^verbatim>\<open>is_legal\<close> returns the same on the two boards. A
  colour that has moved can move again on an EMPTY cell at once, though its opponent
  is to move.
\<close>

theorem play_move_ignores_current_player:
  "(case play_move b mv c of
      Inl e \<Rightarrow> play_move (b\<lparr>current_player := cp\<rparr>) mv c = Inl e
    | Inr (r, b') \<Rightarrow>
        play_move (b\<lparr>current_player := cp\<rparr>) mv c =
          Inr (r, if r then b' else b\<lparr>current_player := cp\<rparr>) \<and>
        (if r then current_player b' = opponent c else b' = b)) \<and>
   (valid_ref h1 s1 \<and> valid_ref h2 s2 \<and> wf_board M (load h1 s1) \<and>
    load h2 s2 = (load h1 s1)\<lparr>current_player := cp\<rparr> \<longrightarrow>
      fst (is_legal M h2 s2 mv c) = fst (is_legal M h1 s1 mv c)) \<and>
   (is_black_white c \<and> play_move b (Point p) c = Inr (True, b1) \<and>
    0 \<le> q \<and> q < int (length (board b1)) \<and> board b1 ! nat q = EMPTY \<longrightarrow>
      current_player b1 = opponent c \<and> (\<exists>b2. play_move b1 (Point q) c = Inr (True, b2)))"
proof (intro conjI impI)
  show "case play_move b mv c of
      Inl e \<Rightarrow> play_move (b\<lparr>current_player := cp\<rparr>) mv c = Inl e
    | Inr (r, b') \<Rightarrow>
        play_move (b\<lparr>current_player := cp\<rparr>) mv c =
          Inr (r, if r then b' else b\<lparr>current_player := cp\<rparr>) \<and>
        (if r then current_player b' = opponent c else b' = b)"
    by (rule play_move_cp)
next
  assume a: "valid_ref h1 s1 \<and> valid_ref h2 s2 \<and> wf_board M (load h1 s1) \<and>
    load h2 s2 = (load h1 s1)\<lparr>current_player := cp\<rparr>"
  then have wf2: "wf_board M (load h2 s2)" by (simp add: wf_board_cp)
  from a is_legal_eq [of h1 s1 M mv c]
  have 1: "fst (is_legal M h1 s1 mv c) = map_sum id fst (play_move (load h1 s1) mv c)" by auto
  from a wf2 is_legal_eq [of h2 s2 M mv c]
  have 2: "fst (is_legal M h2 s2 mv c) = map_sum id fst (play_move (load h2 s2) mv c)" by auto
  show "fst (is_legal M h2 s2 mv c) = fst (is_legal M h1 s1 mv c)"
    unfolding 1 2 using a by (simp add: play_move_cp_result)
next
  assume a: "is_black_white c \<and> play_move b (Point p) c = Inr (True, b1) \<and>
    0 \<le> q \<and> q < int (length (board b1)) \<and> board b1 ! nat q = EMPTY"
  then show "current_player b1 = opponent c"
    using play_move_cp [where b = b and mv = "Point p" and c = c and cp = cp] by simp
  show "\<exists>b2. play_move b1 (Point q) c = Inr (True, b2)"
    using a by (simp add: play_move_result)
qed

theorem play_move_ignores_current_player_witness:
  "valid_ref store2 0 \<and> valid_ref store2w 0 \<and> wf_board 25 (load store2 0) \<and>
   load store2w 0 = (load store2 0)\<lparr>current_player := WHITE\<rparr> \<and>
   fst (is_legal 25 store2w 0 (Point 4) BLACK) = fst (is_legal 25 store2 0 (Point 4) BLACK) \<and>
   is_black_white BLACK \<and>
   play_move corner2 (Point 4) BLACK =
     Inr (True, corner2\<lparr>board := (board corner2)[4 := BLACK], current_player := WHITE\<rparr>) \<and>
   play_move (corner2\<lparr>current_player := WHITE\<rparr>) (Point 4) BLACK =
     Inr (True, corner2\<lparr>board := (board corner2)[4 := BLACK], current_player := WHITE\<rparr>) \<and>
   (0::int) \<le> 8 \<and> board corner2 ! nat 8 = EMPTY \<and>
   (\<exists>b2. play_move (corner2\<lparr>board := (board corner2)[4 := BLACK], current_player := WHITE\<rparr>)
            (Point 8) BLACK = Inr (True, b2))"
proof -
  have wf: "wf_board 25 (load store2 0)" using corner2_wf by (simp add: store2_load)
  have k: "is_black_white BLACK" by (simp add: is_black_white_def)
  have l: "load store2w 0 = (load store2 0)\<lparr>current_player := WHITE\<rparr>"
    by (simp add: store2w_load store2_load)
  have e: "board corner2 ! nat 8 = EMPTY" "length (board corner2) = 13"
    by (simp_all add: corner2_def empty2_def)
  show ?thesis
    using play_move_ignores_current_player
      [where b = corner2 and mv = "Point 4" and c = BLACK and cp = WHITE and
         ?h1.0 = store2 and ?s1.0 = 0 and ?h2.0 = store2w and ?s2.0 = 0 and M = 25 and
         p = 4 and ?b1.0 = "corner2\<lparr>board := (board corner2)[4 := BLACK], current_player := WHITE\<rparr>"
         and q = 8]
      store2_valid store2w_valid wf l k e
    by (simp add: corner2_move)
qed

end
